theory Spec2Isabelle
  imports Main "HOL-Library.Sublist"
begin

section \<open>Caption text: characters and the string methods used by the cleaner\<close>

text \<open>
  Captions, paths and messages are Python \<open>str\<close> values, modelled as \<open>string\<close>.
  The character classes below are the ones Python applies to code points below 128
  (\<open>str.strip\<close>, \<open>str.capitalize\<close>, and \<open>\b\<close> and \<open>re.IGNORECASE\<close> of module \<open>re\<close>).
  From 128 on Python consults the Unicode tables, which are no part of the program:
  the model covers ASCII text (\<open>ascii\<close>), and the theorems about the cleaner are stated
  for ASCII captions only.
\<close>

definition code :: "char \<Rightarrow> nat" where
  "code c = of_char c"

definition ascii :: "string \<Rightarrow> bool" where
  "ascii s = list_all (\<lambda>c. code c < 128) s"

definition is_upper :: "char \<Rightarrow> bool" where
  "is_upper c = (65 \<le> code c \<and> code c \<le> 90)"

definition is_lower :: "char \<Rightarrow> bool" where
  "is_lower c = (97 \<le> code c \<and> code c \<le> 122)"

definition is_digit :: "char \<Rightarrow> bool" where
  "is_digit c = (48 \<le> code c \<and> code c \<le> 57)"

definition to_lower :: "char \<Rightarrow> char" where
  "to_lower c = (if is_upper c then char_of (code c + 32) else c)"

definition to_upper :: "char \<Rightarrow> char" where
  "to_upper c = (if is_lower c then char_of (code c - 32) else c)"

text \<open>\<open>\w\<close>: a letter, a digit or the underscore.\<close>

definition is_word :: "char \<Rightarrow> bool" where
  "is_word c = (is_upper c \<or> is_lower c \<or> is_digit c \<or> code c = 95)"

text \<open>Whitespace as \<open>str.strip()\<close> sees it: TAB, LF, VT, FF, CR, FS, GS, RS, US and space.\<close>

definition is_space :: "char \<Rightarrow> bool" where
  "is_space c = ((9 \<le> code c \<and> code c \<le> 13) \<or> (28 \<le> code c \<and> code c \<le> 32))"

definition strip :: "string \<Rightarrow> string" where
  "strip s = rev (dropWhile is_space (rev (dropWhile is_space s)))"

text \<open>\<open>str.capitalize()\<close>: the first character uppercased, every other one lowercased.\<close>

fun capitalize :: "string \<Rightarrow> string" where
  "capitalize [] = []"
| "capitalize (c # cs) = to_upper c # map to_lower cs"

section \<open>The boilerplate pattern and \<open>re.sub\<close>\<close>

text \<open>
  The matcher works on a cursor: the character before the current position (\<open>None\<close> at
  the start of the text) and the text from the current position on.  Each piece of the
  pattern \<open>\b(a picture|an image|a photo|a photograph) of\b\<close> either moves the cursor
  or fails.
\<close>

type_synonym cursor = "char option \<times> string"

definition word_opt :: "char option \<Rightarrow> bool" where
  "word_opt x = (case x of None \<Rightarrow> False | Some c \<Rightarrow> is_word c)"

definition next_char :: "string \<Rightarrow> char option" where
  "next_char t = (case t of [] \<Rightarrow> None | c # _ \<Rightarrow> Some c)"

text \<open>\<open>\b\<close>: exactly one side of the position is a word character.\<close>

definition word_boundary :: "cursor \<Rightarrow> cursor option" where
  "word_boundary cur =
     (if word_opt (fst cur) \<noteq> word_opt (next_char (snd cur)) then Some cur else None)"

text \<open>A literal under \<open>re.IGNORECASE\<close>.\<close>

fun literal :: "string \<Rightarrow> cursor \<Rightarrow> cursor option" where
  "literal [] cur = Some cur"
| "literal (p # ps) (prev, []) = None"
| "literal (p # ps) (prev, c # cs) =
     (if to_lower c = to_lower p then literal ps (Some c, cs) else None)"

definition boilerplate :: "string list" where
  "boilerplate = [''a picture'', ''an image'', ''a photo'', ''a photograph'']"

text \<open>
  The group tries its alternatives in order; when the rest of the pattern fails after an
  alternative, the next alternative is tried (backtracking).
\<close>

fun alternation :: "string list \<Rightarrow> (cursor \<Rightarrow> cursor option) \<Rightarrow> cursor \<Rightarrow> cursor option" where
  "alternation [] rest cur = None"
| "alternation (a # as) rest cur =
     (case Option.bind (literal a cur) rest of
        Some r \<Rightarrow> Some r
      | None \<Rightarrow> alternation as rest cur)"

definition pattern :: "cursor \<Rightarrow> cursor option" where
  "pattern cur =
     Option.bind (word_boundary cur)
       (alternation boilerplate (\<lambda>c. Option.bind (literal '' of'' c) word_boundary))"

text \<open>
  \<open>re.sub(pattern, '', text)\<close>: scan from the left; where the pattern matches, drop the
  match and go on after it; elsewhere keep the character and move one position.
\<close>

function sub_from :: "char option \<Rightarrow> string \<Rightarrow> string" where
  "sub_from prev [] = []"
| "sub_from prev (c # cs) =
     (case pattern (prev, c # cs) of
        Some (prev', rest) \<Rightarrow> sub_from prev' rest
      | None \<Rightarrow> c # sub_from (Some c) cs)"
  by pat_completeness auto
termination
proof (relation "measure (\<lambda>(prev, t). length t)")
  show "wf (measure (\<lambda>(prev, t). length t))"
    by simp
next
  fix prev :: "char option" and c :: char and cs :: string
  show "((Some c, cs), (prev, c # cs)) \<in> measure (\<lambda>(prev, t). length t)"
    by simp
next
  fix prev :: "char option" and c :: char and cs :: string
    and x2 :: cursor and prev' :: "char option" and rest :: string
  assume m: "pattern (prev, c # cs) = Some x2" and x2: "(prev', rest) = x2"
  have lit: "length (snd r) + length ps = length (snd cur)"
    if "literal ps cur = Some r" for ps cur r
    using that
  proof (induction ps cur rule: literal.induct)
    case (3 p ps prev c cs)
    then show ?case by (auto split: if_splits)
  qed auto
  have wb: "r = cur" if "word_boundary cur = Some r" for cur r
    using that by (auto simp: word_boundary_def split: if_splits)
  have alt: "length (snd r) + 3 \<le> length (snd cur)"
    if "alternation as (\<lambda>c. Option.bind (literal '' of'' c) word_boundary) cur = Some r"
    for as cur r
    using that
  proof (induction as)
    case Nil
    then show ?case by simp
  next
    case (Cons a as)
    show ?case
    proof (cases "Option.bind (literal a cur) (\<lambda>c. Option.bind (literal '' of'' c) word_boundary)")
      case None
      with Cons show ?thesis by simp
    next
      case (Some r')
      with Cons.prems have r: "r' = r" by simp
      from Some obtain c1 c2 where c1: "literal a cur = Some c1"
        and c2: "literal '' of'' c1 = Some c2" and c3: "word_boundary c2 = Some r'"
        by (auto simp: bind_eq_Some_conv)
      from lit[OF c1] lit[OF c2] wb[OF c3] r show ?thesis by simp
    qed
  qed
  from m obtain c0 where "word_boundary (prev, c # cs) = Some c0"
    and "alternation boilerplate (\<lambda>c. Option.bind (literal '' of'' c) word_boundary) c0 = Some x2"
    by (auto simp: pattern_def bind_eq_Some_conv)
  with wb[of "(prev, c # cs)" c0] alt[of boilerplate c0 x2] x2
  show "((prev', rest), (prev, c # cs)) \<in> measure (\<lambda>(prev, t). length t)"
    by auto
qed

definition re_sub :: "string \<Rightarrow> string" where
  "re_sub text = sub_from None text"

section \<open>\<open>clean_caption\<close>\<close>

definition clean_caption :: "string \<Rightarrow> string" where
  "clean_caption caption = capitalize (strip (re_sub caption))"

section \<open>Exceptions, the outside world and the output streams\<close>

text \<open>
  An exception that \<open>except Exception\<close> catches, with the text \<open>str(e)\<close> gives for it.
\<close>

datatype exn = ValueError string | IndexError string | LibraryError string

fun str_exn :: "exn \<Rightarrow> string" where
  "str_exn (ValueError m) = m"
| "str_exn (IndexError m) = m"
| "str_exn (LibraryError m) = m"

text \<open>
  The captioning pipeline of \<open>process_image\<close> up to \<open>processor.decode\<close> (open and
  convert the image, preprocess, \<open>model.generate\<close>, decode) is outside the repository.
  It is a parameter: from the state of the outside world (files, model, random
  generator) and a path it either raises or yields the decoded caption, and leaves a
  new state of the world.
\<close>

type_synonym 'w engine = "'w \<Rightarrow> string \<Rightarrow> (exn + string) \<times> 'w"

text \<open>What the process has printed so far, one entry for each call of \<open>print\<close>.\<close>

record 'w io =
  world :: 'w
  stdout :: "string list"
  stderr :: "string list"

record result_record =
  rpath :: string
  rcaption :: string

section \<open>\<open>process_image\<close>\<close>

text \<open>The body of the \<open>try\<close> statement: it raises (\<open>Inl\<close>) or returns the cleaned caption.\<close>

definition try_body :: "'w engine \<Rightarrow> string \<Rightarrow> 'w \<Rightarrow> (exn + string) \<times> 'w" where
  "try_body engine path w =
     (case engine w path of
        (Inl e, w') \<Rightarrow> (Inl e, w')
      | (Inr caption, w') \<Rightarrow>
          (let cleaned_caption = clean_caption caption
           in if strip cleaned_caption = []
              then (Inl (ValueError ''Empty caption generated''), w')
              else (Inr cleaned_caption, w')))"

text \<open>
  The whole function: \<open>except Exception\<close> prints the error line and returns \<open>None\<close>.
  The \<open>finally\<close> block only releases local objects and caches and prints nothing.
  The result is \<open>Inl e\<close> when exception \<open>e\<close> leaves the function.
\<close>

definition process_image ::
  "'w engine \<Rightarrow> string \<Rightarrow> 'w io \<Rightarrow> (exn + string option) \<times> 'w io" where
  "process_image engine path s =
     (case try_body engine path (world s) of
        (Inr cleaned_caption, w') \<Rightarrow> (Inr (Some cleaned_caption), s\<lparr>world := w'\<rparr>)
      | (Inl e, w') \<Rightarrow>
          (Inr None,
           s\<lparr>world := w',
             stderr := stderr s @ [''Error processing '' @ path @ '': '' @ str_exn e]\<rparr>))"

section \<open>\<open>generate_batch_captions\<close>\<close>

text \<open>The \<open>for\<close> loop, with the list \<open>results\<close> built so far.\<close>

fun batch_loop ::
  "'w engine \<Rightarrow> string list \<Rightarrow> result_record list \<Rightarrow> 'w io
     \<Rightarrow> (exn + result_record list) \<times> 'w io" where
  "batch_loop engine [] results s = (Inr results, s)"
| "batch_loop engine (path # paths) results s =
     (case process_image engine path s of
        (Inl e, s') \<Rightarrow> (Inl e, s')
      | (Inr None, s') \<Rightarrow> batch_loop engine paths results s'
      | (Inr (Some caption), s') \<Rightarrow>
          batch_loop engine paths
            (results @ [\<lparr>rpath = path, rcaption = caption\<rparr>]) s')"

definition generate_batch_captions ::
  "'w engine \<Rightarrow> string list \<Rightarrow> 'w io \<Rightarrow> (exn + result_record list) \<times> 'w io" where
  "generate_batch_captions engine image_paths s = batch_loop engine image_paths [] s"

section \<open>\<open>json.dumps\<close>\<close>

datatype json = JString string | JArray "json list" | JObject "(string \<times> json) list"

definition hex_digit :: "nat \<Rightarrow> char" where
  "hex_digit n = (if n < 10 then char_of (48 + n) else char_of (87 + n))"

text \<open>
  The escapes of \<open>json.dumps\<close> with its default \<open>ensure_ascii\<close>: the quote, the backslash,
  the five short escapes, and \<open>\u00xx\<close> for every other character outside space .. tilde.
\<close>

definition json_escape :: "char \<Rightarrow> string" where
  "json_escape c =
     (if code c = 34 then [CHR 0x5C, CHR 0x22]
      else if code c = 92 then [CHR 0x5C, CHR 0x5C]
      else if code c = 10 then [CHR 0x5C, CHR ''n'']
      else if code c = 13 then [CHR 0x5C, CHR ''r'']
      else if code c = 9 then [CHR 0x5C, CHR ''t'']
      else if code c = 12 then [CHR 0x5C, CHR ''f'']
      else if code c = 8 then [CHR 0x5C, CHR ''b'']
      else if code c < 32 \<or> 126 < code c
        then [CHR 0x5C, CHR ''u'', CHR ''0'', CHR ''0'',
              hex_digit (code c div 16), hex_digit (code c mod 16)]
      else [c])"

definition json_string :: "string \<Rightarrow> string" where
  "json_string s = [CHR 0x22] @ concat (map json_escape s) @ [CHR 0x22]"

fun join :: "string \<Rightarrow> string list \<Rightarrow> string" where
  "join sep [] = []"
| "join sep [x] = x"
| "join sep (x # y # ys) = x @ sep @ join sep (y # ys)"

fun json_dumps :: "json \<Rightarrow> string" where
  "json_dumps (JString s) = json_string s"
| "json_dumps (JArray xs) = ''['' @ join '', '' (map json_dumps xs) @ '']''"
| "json_dumps (JObject kvs) =
     ''{'' @ join '', '' (map (\<lambda>kv. json_string (fst kv) @ '': '' @ json_dumps (snd kv)) kvs)
       @ ''}''"

definition record_json :: "result_record \<Rightarrow> json" where
  "record_json r = JObject [(''path'', JString (rpath r)), (''caption'', JString (rcaption r))]"

section \<open>The entry point\<close>

text \<open>\<open>sys.argv[i]\<close> raises \<open>IndexError\<close> past the end of the list.\<close>

definition argv_at :: "string list \<Rightarrow> nat \<Rightarrow> exn + string" where
  "argv_at argv i =
     (if i < length argv then Inr (argv ! i) else Inl (IndexError ''list index out of range''))"

text \<open>The truth value of \<open>caption\<close> in \<open>if caption:\<close>: neither \<open>None\<close> nor the empty string.\<close>

fun truthy :: "string option \<Rightarrow> bool" where
  "truthy None = False"
| "truthy (Some c) = (c \<noteq> [])"

text \<open>The body of the top-level \<open>try\<close>.\<close>

definition main_body :: "'w engine \<Rightarrow> string list \<Rightarrow> 'w io \<Rightarrow> (exn + unit) \<times> 'w io" where
  "main_body engine argv s =
     (if length argv > 2 then
        (case generate_batch_captions engine (drop 1 argv) s of
           (Inl e, s') \<Rightarrow> (Inl e, s')
         | (Inr results, s') \<Rightarrow>
             (Inr (), s'\<lparr>stdout := stdout s' @ [json_dumps (JArray (map record_json results))]\<rparr>))
      else
        (case argv_at argv 1 of
           Inl e \<Rightarrow> (Inl e, s)
         | Inr path \<Rightarrow>
             (case process_image engine path s of
                (Inl e, s') \<Rightarrow> (Inl e, s')
              | (Inr caption, s') \<Rightarrow>
                  (if truthy caption
                   then (Inr (), s'\<lparr>stdout := stdout s' @ [the caption]\<rparr>)
                   else (Inr (), s')))))"

text \<open>
  The program from \<open>if __name__ == "__main__"\<close> on: the exit status and the streams.
  A run that reaches the end exits with status 0; the handler prints the error object
  to the error stream and calls \<open>sys.exit(1)\<close>.
\<close>

definition main :: "'w engine \<Rightarrow> string list \<Rightarrow> 'w io \<Rightarrow> nat \<times> 'w io" where
  "main engine argv s =
     (case main_body engine argv s of
        (Inr u, s') \<Rightarrow> (0, s')
      | (Inl e, s') \<Rightarrow>
          (1, s'\<lparr>stderr := stderr s' @ [json_dumps (JObject [(''error'', JString (str_exn e))])]\<rparr>))"

section \<open>Notions used to state the properties\<close>

text \<open>The successive calls of \<open>process_image\<close> on a list of paths: each path with its result.\<close>

fun calls ::
  "'w engine \<Rightarrow> string list \<Rightarrow> 'w io \<Rightarrow> (string \<times> (exn + string option)) list" where
  "calls engine [] s = []"
| "calls engine (path # paths) s =
     (case process_image engine path s of (r, s') \<Rightarrow> (path, r) # calls engine paths s')"

text \<open>The record that a call contributes to the batch result, if any.\<close>

fun record_of :: "string \<times> (exn + string option) \<Rightarrow> result_record option" where
  "record_of (path, Inr (Some caption)) = Some \<lparr>rpath = path, rcaption = caption\<rparr>"
| "record_of (path, Inr None) = None"
| "record_of (path, Inl e) = None"

text \<open>The four boilerplate phrases, in lower case.\<close>

definition phrases :: "string list" where
  "phrases = [''a picture of'', ''an image of'', ''a photo of'', ''a photograph of'']"

text \<open>
  The text contains the phrase at position \<open>i\<close>, compared without regard to case:
  the plain substring reading of ``contains the literal phrase''.
\<close>

definition phrase_at :: "string \<Rightarrow> nat \<Rightarrow> string \<Rightarrow> bool" where
  "phrase_at s i ph =
     (i + length ph \<le> length s \<and> map to_lower (take (length ph) (drop i s)) = ph)"

definition contains_phrase :: "string \<Rightarrow> string \<Rightarrow> bool" where
  "contains_phrase s ph = list_ex (\<lambda>i. phrase_at s i ph) [0..<Suc (length s)]"

text \<open>
  A whole-word occurrence: the phrase is at position \<open>i\<close>, no word character stands
  right before it and none right after it.
\<close>

definition occurrence :: "string \<Rightarrow> nat \<Rightarrow> string \<Rightarrow> bool" where
  "occurrence s i ph =
     (phrase_at s i ph
      \<and> (i = 0 \<or> \<not> is_word (s ! (i - 1)))
      \<and> (i + length ph = length s \<or> \<not> is_word (s ! (i + length ph))))"

text \<open>Position \<open>k\<close> lies inside a whole-word occurrence of one of the phrases.\<close>

definition covered :: "string \<Rightarrow> nat \<Rightarrow> bool" where
  "covered s k =
     list_ex (\<lambda>ph. list_ex (\<lambda>i. occurrence s i ph \<and> k < i + length ph) [0..<Suc k]) phrases"

text \<open>The text without the characters of its whole-word occurrences.\<close>

definition removed :: "string \<Rightarrow> string" where
  "removed s = map (\<lambda>k. s ! k) (filter (\<lambda>k. \<not> covered s k) [0..<length s])"

text \<open>
  The cleaner as the specification words it: occurrences removed, whitespace trimmed,
  and only the first character changed, to upper case.
\<close>

fun upper_first :: "string \<Rightarrow> string" where
  "upper_first [] = []"
| "upper_first (c # cs) = to_upper c # cs"

definition spec_clean_caption :: "string \<Rightarrow> string" where
  "spec_clean_caption s = upper_first (strip (removed s))"

text \<open>The pattern matches nowhere from the cursor on.\<close>

fun free :: "char option \<Rightarrow> string \<Rightarrow> bool" where
  "free prev [] = True"
| "free prev (c # cs) = (pattern (prev, c # cs) = None \<and> free (Some c) cs)"

text \<open>
  A shape of pattern text: no two neighbouring characters are both non-word characters
  (\<open>w\<close> tells whether the character before the text is a word character), and the
  last character is a word character.
\<close>

fun tight :: "bool \<Rightarrow> string \<Rightarrow> bool" where
  "tight w [] = w"
| "tight w (p # ps) = ((w \<or> is_word p) \<and> tight (is_word p) ps)"

text \<open>The cursor of the matcher at position \<open>i\<close> of a text.\<close>

definition cursor_at :: "string \<Rightarrow> nat \<Rightarrow> cursor" where
  "cursor_at s i = (if i = 0 then None else Some (s ! (i - 1)), drop i s)"

text \<open>A small outside world for concrete runs: one unreadable file, one image whose
  caption is boilerplate only, a panorama, and a dog everywhere else.\<close>

definition sample_engine :: "nat engine" where
  "sample_engine w path =
     (if path = ''missing.png'' then (Inl (LibraryError ''No such file''), w + 1)
      else if path = ''blank.png'' then (Inr ''a photo of '', w + 1)
      else if path = ''panorama.png'' then (Inr ''panorama photo of a lake'', w + 1)
      else (Inr ''a photo of a Dog'', w + 1))"

definition start :: "nat io" where
  "start = \<lparr>world = 0, stdout = [], stderr = []\<rparr>"

section \<open>Basic facts about the program\<close>

lemma process_image_returns: "\<exists>r s'. process_image engine path s = (Inr r, s')"
  by (auto simp: process_image_def split: prod.splits sum.splits)

lemma process_image_Some_strip:
  assumes "process_image engine path s = (Inr (Some c), s')"
  shows "strip c \<noteq> []"
  using assms
  by (auto simp: process_image_def try_body_def Let_def split: prod.splits sum.splits if_splits)

lemma strip_empty_iff: "strip s = [] \<longleftrightarrow> list_all is_space s"
proof
  assume "strip s = []"
  then have "dropWhile is_space (rev (dropWhile is_space s)) = []"
    by (simp add: strip_def)
  then have "\<forall>c\<in>set (dropWhile is_space s). is_space c"
    by (simp add: dropWhile_eq_Nil_conv)
  then have "dropWhile is_space s = []"
    by (metis hd_dropWhile list.set_sel(1))
  then show "list_all is_space s"
    by (simp add: dropWhile_eq_Nil_conv list_all_iff)
next
  assume "list_all is_space s"
  then have "dropWhile is_space s = []"
    by (simp add: dropWhile_eq_Nil_conv list_all_iff)
  then show "strip s = []"
    by (auto simp: strip_def dest: set_dropWhileD)
qed

lemma batch_loop_calls:
  "fst (batch_loop engine paths results s) =
     Inr (results @ List.map_filter record_of (calls engine paths s))"
proof (induction paths arbitrary: results s)
  case Nil
  show ?case by (simp add: map_filter_simps)
next
  case (Cons p ps)
  obtain r s' where r: "process_image engine p s = (Inr r, s')"
    using process_image_returns by blast
  show ?case
  proof (cases r)
    case None
    with r Cons.IH[of results s'] show ?thesis
      by (simp add: map_filter_simps)
  next
    case (Some c)
    with r Cons.IH[of "results @ [\<lparr>rpath = p, rcaption = c\<rparr>]" s'] show ?thesis
      by (simp add: map_filter_simps)
  qed
qed

lemma calls_paths: "map fst (calls engine paths s) = paths"
  by (induction paths arbitrary: s) (auto split: prod.splits)

lemma map_filter_length: "length (List.map_filter f xs) \<le> length xs"
  by (induction xs) (auto simp: map_filter_simps split: option.splits)

lemma record_of_path: "record_of x = Some r \<Longrightarrow> rpath r = fst x"
  by (cases x rule: record_of.cases) auto

lemma subseq_records: "subseq (map rpath (List.map_filter record_of xs)) (map fst xs)"
proof (induction xs)
  case Nil
  show ?case by (simp add: map_filter_simps)
next
  case (Cons x xs)
  show ?case
  proof (cases "record_of x")
    case None
    with Cons show ?thesis by (auto simp: map_filter_simps intro: list_emb_Cons)
  next
    case (Some r)
    with Cons record_of_path[OF Some] show ?thesis by (simp add: map_filter_simps)
  qed
qed

lemma main_single:
  "main engine [prog, path] s =
     (case process_image engine path s of
        (Inl e, s') \<Rightarrow>
          (1, s'\<lparr>stderr := stderr s' @ [json_dumps (JObject [(''error'', JString (str_exn e))])]\<rparr>)
      | (Inr caption, s') \<Rightarrow>
          (0, if truthy caption then s'\<lparr>stdout := stdout s' @ [the caption]\<rparr> else s'))"
  by (simp add: main_def main_body_def argv_at_def split: prod.splits sum.splits)

lemma main_batch_status:
  assumes "2 < length argv"
  shows "fst (main engine argv s) = 0"
proof -
  obtain r s' where "generate_batch_captions engine (drop 1 argv) s = (r, s')"
    by (cases "generate_batch_captions engine (drop 1 argv) s")
  moreover from this have "\<exists>rs. r = Inr rs"
    using batch_loop_calls[of engine "drop 1 argv" "[]" s]
    by (simp add: generate_batch_captions_def)
  ultimately show ?thesis using assms
    by (auto simp: main_def main_body_def)
qed

lemma main_single_status:
  assumes "length argv = 2"
  shows "fst (main engine argv s) = 0"
proof -
  from assms obtain prog path where argv: "argv = [prog, path]"
    by (cases argv; cases "tl argv") auto
  obtain r s' where "process_image engine path s = (Inr r, s')"
    using process_image_returns by blast
  then show ?thesis by (simp add: argv main_single)
qed

section \<open>Facts about characters\<close>

lemma code_char_of: "n < 256 \<Longrightarrow> code (char_of n) = n"
  by (simp add: code_def)

lemma to_lower_idem: "to_lower (to_lower c) = to_lower c"
  by (simp add: to_lower_def is_upper_def code_def)

lemma to_upper_idem: "to_upper (to_upper c) = to_upper c"
  by (auto simp: to_upper_def is_lower_def code_def)

lemma to_lower_upper: "to_lower (to_upper c) = to_lower c"
  by (auto simp: to_upper_def to_lower_def is_lower_def is_upper_def code_def)

lemma is_word_lower: "is_word (to_lower c) = is_word c"
  by (auto simp: to_lower_def is_word_def is_lower_def is_upper_def is_digit_def code_def)

lemma is_space_lower: "is_space (to_lower c) = is_space c"
  by (auto simp: to_lower_def is_space_def is_upper_def code_def)

lemma is_space_upper: "is_space (to_upper c) = is_space c"
  by (auto simp: to_upper_def is_space_def is_lower_def code_def)

lemma space_not_word: "is_space c \<Longrightarrow> \<not> is_word c"
  by (auto simp: is_space_def is_word_def is_lower_def is_upper_def is_digit_def)

section \<open>Facts about the pattern\<close>

lemma literal_iff:
  "literal ps (prev, t) = Some r \<longleftrightarrow>
     length ps \<le> length t \<and> map to_lower (take (length ps) t) = map to_lower ps
     \<and> r = (if ps = [] then prev else Some (t ! (length ps - 1)), drop (length ps) t)"
proof (induction ps arbitrary: prev t)
  case Nil
  show ?case by auto
next
  case (Cons p ps)
  show ?case
  proof (cases t)
    case Nil
    then show ?thesis by simp
  next
    case (Cons c cs)
    show ?thesis
      unfolding Cons using Cons.IH[of "Some c" cs]
      by (cases ps) auto
  qed
qed

lemma literal_append:
  "literal (a @ b) cur = Option.bind (literal a cur) (literal b)"
proof (induction a cur rule: literal.induct)
  case (1 cur)
  show ?case by simp
next
  case (2 p ps prev)
  show ?case by simp
next
  case (3 p ps prev c cs)
  then show ?case by simp
qed

lemma alternation_Some:
  "alternation as k cur = Some r \<Longrightarrow> \<exists>a\<in>set as. Option.bind (literal a cur) k = Some r"
  by (induction as) (auto split: option.splits)

lemma alternation_None:
  "alternation as k cur = None \<Longrightarrow> \<forall>a\<in>set as. Option.bind (literal a cur) k = None"
  by (induction as) (auto split: option.splits)

lemma phrases_boilerplate: "phrases = map (\<lambda>a. a @ '' of'') boilerplate"
  by (simp add: phrases_def boilerplate_def)

lemma phrase_lower: "ph \<in> set phrases \<Longrightarrow> map to_lower ph = ph"
  by (auto simp: phrases_def to_lower_def is_upper_def code_def)

lemma phrase_prefix_unique:
  assumes "ph \<in> set phrases" "ph' \<in> set phrases" "ph = take (length ph) ph'"
  shows "ph = ph'"
  using assms by (auto simp: phrases_def)

lemma literal_phrase_unique:
  assumes "ph \<in> set phrases" "ph' \<in> set phrases"
    and "literal ph cur = Some r" "literal ph' cur = Some r'"
  shows "ph = ph'"
proof -
  obtain prev t where cur: "cur = (prev, t)" by (cases cur)
  from assms(3,4) have a: "map to_lower (take (length ph) t) = ph" "length ph \<le> length t"
    and b: "map to_lower (take (length ph') t) = ph'" "length ph' \<le> length t"
    using phrase_lower[OF assms(1)] phrase_lower[OF assms(2)]
    by (auto simp: cur literal_iff)
  show ?thesis
  proof (cases "length ph \<le> length ph'")
    case True
    have "take (length ph) ph' = map to_lower (take (length ph) (take (length ph') t))"
      by (subst b(1)[symmetric]) (simp add: take_map)
    also have "\<dots> = ph" using True a by (simp add: min_def)
    finally show ?thesis using phrase_prefix_unique[OF assms(1,2)] by simp
  next
    case False
    have "take (length ph') ph = map to_lower (take (length ph') (take (length ph) t))"
      by (subst a(1)[symmetric]) (simp add: take_map)
    also have "\<dots> = ph'" using False b by (simp add: min_def)
    finally show ?thesis using phrase_prefix_unique[OF assms(2,1)] by simp
  qed
qed

lemma word_boundary_iff:
  "word_boundary cur = Some r \<longleftrightarrow>
     r = cur \<and> word_opt (fst cur) \<noteq> word_opt (next_char (snd cur))"
  by (auto simp: word_boundary_def)

lemma alternative_iff:
  "Option.bind (literal a cur) (\<lambda>c. Option.bind (literal '' of'' c) word_boundary) = Some r
   \<longleftrightarrow> literal (a @ '' of'') cur = Some r
       \<and> word_opt (fst r) \<noteq> word_opt (next_char (snd r))"
proof (cases "literal a cur")
  case None
  then show ?thesis by (simp add: literal_append)
next
  case (Some c1)
  show ?thesis
  proof (cases "literal '' of'' c1")
    case None
    with Some show ?thesis by (simp add: literal_append)
  next
    case (Some c2)
    with \<open>literal a cur = Some c1\<close> show ?thesis
      by (auto simp: literal_append word_boundary_iff)
  qed
qed

lemma pattern_iff:
  "pattern cur = Some r \<longleftrightarrow>
     word_opt (fst cur) \<noteq> word_opt (next_char (snd cur))
     \<and> (\<exists>ph\<in>set phrases. literal ph cur = Some r)
     \<and> word_opt (fst r) \<noteq> word_opt (next_char (snd r))"
  (is "?L \<longleftrightarrow> ?R")
proof
  assume ?L
  then have wb: "word_opt (fst cur) \<noteq> word_opt (next_char (snd cur))"
    and alt: "alternation boilerplate (\<lambda>c. Option.bind (literal '' of'' c) word_boundary) cur = Some r"
    by (auto simp: pattern_def word_boundary_def bind_eq_Some_conv split: if_splits)
  from alternation_Some[OF alt] obtain a where a: "a \<in> set boilerplate"
    and "Option.bind (literal a cur) (\<lambda>c. Option.bind (literal '' of'' c) word_boundary) = Some r"
    by blast
  then have "literal (a @ '' of'') cur = Some r" "word_opt (fst r) \<noteq> word_opt (next_char (snd r))"
    by (simp_all add: alternative_iff)
  moreover from a have "a @ '' of'' \<in> set phrases"
    by (simp add: phrases_boilerplate)
  ultimately show ?R using wb by blast
next
  assume ?R
  then obtain ph where wb: "word_opt (fst cur) \<noteq> word_opt (next_char (snd cur))"
    and ph: "ph \<in> set phrases" "literal ph cur = Some r"
    and wb': "word_opt (fst r) \<noteq> word_opt (next_char (snd r))"
    by blast
  let ?k = "\<lambda>c. Option.bind (literal '' of'' c) word_boundary"
  have "alternation boilerplate ?k cur = Some r"
  proof (cases "alternation boilerplate ?k cur")
    case None
    from ph(1) obtain a where a: "a \<in> set boilerplate" "ph = a @ '' of''"
      by (auto simp: phrases_boilerplate)
    from alternation_None[OF None] a have "Option.bind (literal a cur) ?k = None" by blast
    moreover have "Option.bind (literal a cur) ?k = Some r"
      using ph(2) wb' unfolding a(2) by (simp add: alternative_iff)
    ultimately show ?thesis by simp
  next
    case (Some r')
    from alternation_Some[OF Some] obtain a where a: "a \<in> set boilerplate"
      and "Option.bind (literal a cur) ?k = Some r'"
      by blast
    then have "literal (a @ '' of'') cur = Some r'"
      by (simp add: alternative_iff)
    moreover from a have "a @ '' of'' \<in> set phrases"
      by (simp add: phrases_boilerplate)
    ultimately have "a @ '' of'' = ph"
      using literal_phrase_unique ph by blast
    with \<open>literal (a @ '' of'') cur = Some r'\<close> ph(2) Some show ?thesis by simp
  qed
  with wb show ?L
    by (simp add: pattern_def word_boundary_def)
qed


lemma phrase_tight: "ph \<in> set phrases \<Longrightarrow> tight False ph"
  by (auto simp: phrases_def is_word_def is_lower_def is_upper_def is_digit_def code_def)

lemma phrase_ends:
  "ph \<in> set phrases \<Longrightarrow> ph \<noteq> [] \<and> is_word (hd ph) \<and> is_word (last ph)"
  by (auto simp: phrases_def is_word_def is_lower_def is_upper_def is_digit_def code_def)

lemma next_char_simps [simp]: "next_char [] = None" "next_char (c # cs) = Some c"
  by (simp_all add: next_char_def)

lemma word_opt_simps [simp]: "word_opt None = False" "word_opt (Some c) = is_word c"
  by (simp_all add: word_opt_def)

lemma literal_phrase_ends:
  assumes "ph \<in> set phrases" "literal ph (prev, t) = Some r"
  shows "word_opt (next_char t) \<and> word_opt (fst r)"
proof -
  from phrase_ends[OF assms(1)] have ne: "ph \<noteq> []" and h: "is_word (hd ph)" and l: "is_word (last ph)"
    by auto
  let ?n = "length ph"
  from assms(2) have len: "?n \<le> length t" and eq: "map to_lower (take ?n t) = ph"
    and r: "r = (Some (t ! (?n - 1)), drop ?n t)"
    using ne phrase_lower[OF assms(1)] by (auto simp: literal_iff)
  from ne len have pos: "0 < ?n" "0 < length t" by auto
  from eq pos len have "to_lower (t ! 0) = ph ! 0"
    by (metis nth_map nth_take length_take min.absorb2)
  then have "is_word (t ! 0)" using h ne is_word_lower[of "t ! 0"] by (simp add: hd_conv_nth)
  then have a: "word_opt (next_char t)" using pos by (cases t) auto
  from eq pos len have "to_lower (t ! (?n - 1)) = ph ! (?n - 1)"
    by (metis diff_less nth_map nth_take length_take min.absorb2 zero_less_one)
  then have "is_word (t ! (?n - 1))"
    using l ne is_word_lower[of "t ! (?n - 1)"] by (simp add: last_conv_nth)
  with a r show ?thesis by simp
qed

lemma pattern_SomeD:
  assumes "pattern (prev, t) = Some r"
  shows "\<not> word_opt prev" "word_opt (next_char t)" "word_opt (fst r)"
    "\<not> word_opt (next_char (snd r))"
    "\<exists>ph\<in>set phrases. literal ph (prev, t) = Some r"
proof -
  from assms obtain ph where wb: "word_opt prev \<noteq> word_opt (next_char t)"
    and ph: "ph \<in> set phrases" "literal ph (prev, t) = Some r"
    and wb': "word_opt (fst r) \<noteq> word_opt (next_char (snd r))"
    by (auto simp: pattern_iff)
  from literal_phrase_ends[OF ph] wb wb' ph
  show "\<not> word_opt prev" "word_opt (next_char t)" "word_opt (fst r)"
    "\<not> word_opt (next_char (snd r))"
    "\<exists>ph\<in>set phrases. literal ph (prev, t) = Some r"
    by auto
qed

lemma pattern_nonword_None: "\<not> word_opt (next_char t) \<Longrightarrow> pattern (prev, t) = None"
  using pattern_SomeD(2)[of prev t] by (cases "pattern (prev, t)") auto

lemma pattern_after_word_None: "word_opt prev \<Longrightarrow> pattern (prev, t) = None"
  using pattern_SomeD(1)[of prev t] by (cases "pattern (prev, t)") auto

lemma sub_from_nonword:
  "\<not> is_word e \<Longrightarrow> sub_from prev (e # es) = e # sub_from (Some e) es"
  by (simp add: pattern_nonword_None)

text \<open>
  A literal that matches in the output of the scan, from a position the scan kept,
  matches in the scanned text too: no removed match can lie inside it.
\<close>

lemma literal_through_sub:
  assumes "tight w P" "w \<longrightarrow> word_opt prev"
    and "literal P (prev, sub_from prev cs) = Some (p1, rest1)"
    and "\<not> word_opt (next_char rest1)"
  shows "\<exists>rest0. literal P (prev, cs) = Some (p1, rest0) \<and> \<not> word_opt (next_char rest0)"
  using assms
proof (induction P arbitrary: w prev cs)
  case Nil
  then have w: "word_opt prev" and p1: "p1 = prev" and out: "rest1 = sub_from prev cs"
    by auto
  have "\<not> word_opt (next_char cs)"
  proof (cases cs)
    case Nil
    then show ?thesis by simp
  next
    case (Cons d ds)
    with w have "sub_from prev cs = d # sub_from (Some d) ds"
      by (simp add: pattern_after_word_None)
    with Nil.prems(4) out Cons show ?thesis by simp
  qed
  with p1 show ?case by simp
next
  case (Cons p ps)
  from Cons.prems(1) have t: "w \<or> is_word p" "tight (is_word p) ps" by auto
  show ?case
  proof (cases cs)
    case Nil
    with Cons.prems(3) show ?thesis by simp
  next
    case cs: (Cons d ds)
    show ?thesis
    proof (cases "pattern (prev, d # ds)")
      case None
      then have out: "sub_from prev cs = d # sub_from (Some d) ds"
        by (simp add: cs)
      with Cons.prems(3) have d: "to_lower d = to_lower p"
        and l: "literal ps (Some d, sub_from (Some d) ds) = Some (p1, rest1)"
        by (auto split: if_splits)
      from d have "is_word p \<longrightarrow> word_opt (Some d)"
        using is_word_lower[of d] is_word_lower[of p] by simp
      from Cons.IH[OF t(2) this l Cons.prems(4)] d show ?thesis
        by (simp add: cs)
    next
      case (Some r)
      obtain prev' rest where r: "r = (prev', rest)" by (cases r)
      from pattern_SomeD[OF Some] r have nw: "\<not> word_opt prev" and w': "word_opt prev'"
        and nr: "\<not> word_opt (next_char rest)" by auto
      from nw Cons.prems(2) t(1) have wp: "is_word p" by auto
      have out: "sub_from prev cs = sub_from prev' rest"
        using Some r by (simp add: cs)
      show ?thesis
      proof (cases rest)
        case Nil
        with out Cons.prems(3) show ?thesis by simp
      next
        case (Cons e es)
        with nr have "\<not> is_word e" by simp
        then have "sub_from prev' rest = e # sub_from (Some e) es"
          unfolding Cons by (rule sub_from_nonword)
        with out Cons.prems(3) have "to_lower e = to_lower p"
          by (auto split: if_splits)
        with \<open>\<not> is_word e\<close> wp show ?thesis
          using is_word_lower[of e] is_word_lower[of p] by simp
      qed
    qed
  qed
qed

text \<open>Where the pattern fails in the text, it fails in the output of the scan.\<close>

lemma pattern_sub_stable:
  assumes "pattern (prev, c # cs) = None"
  shows "pattern (prev, c # sub_from (Some c) cs) = None"
proof (cases "pattern (prev, c # sub_from (Some c) cs)")
  case None
  then show ?thesis .
next
  case (Some r)
  obtain p1 rest1 where r: "r = (p1, rest1)" by (cases r)
  from pattern_SomeD[OF Some] r obtain ph where nw: "\<not> word_opt prev"
    and w1: "word_opt p1" and n1: "\<not> word_opt (next_char rest1)"
    and ph: "ph \<in> set phrases" "literal ph (prev, c # sub_from (Some c) cs) = Some (p1, rest1)"
    by auto
  from phrase_ends[OF ph(1)] obtain p ps where pps: "ph = p # ps" and wp: "is_word p"
    by (cases ph) auto
  from phrase_tight[OF ph(1)] pps wp have t: "tight (is_word p) ps" by simp
  from ph(2) pps have c: "to_lower c = to_lower p"
    and l: "literal ps (Some c, sub_from (Some c) cs) = Some (p1, rest1)"
    by (auto split: if_splits)
  from c wp have wc: "is_word c" using is_word_lower[of c] is_word_lower[of p] by simp
  then have "is_word p \<longrightarrow> word_opt (Some c)" by simp
  from literal_through_sub[OF t this l n1] obtain rest0
    where l0: "literal ps (Some c, cs) = Some (p1, rest0)" and n0: "\<not> word_opt (next_char rest0)"
    by blast
  have "literal ph (prev, c # cs) = Some (p1, rest0)"
    using l0 c by (simp add: pps)
  with ph(1) have "\<exists>ph\<in>set phrases. literal ph (prev, c # cs) = Some (p1, rest0)"
    by blast
  then have "pattern (prev, c # cs) = Some (p1, rest0)"
    unfolding pattern_iff using nw wc n0 w1 by simp
  with assms show ?thesis by simp
qed

lemma pattern_prev_cong:
  assumes "word_opt prev = word_opt prev'"
  shows "(pattern (prev, t) = None) = (pattern (prev', t) = None)"
proof -
  have *: "pattern (b, t) \<noteq> None" if "word_opt a = word_opt b" "pattern (a, t) = Some r" for a b r
  proof -
    from pattern_SomeD[OF that(2)] obtain ph where ph: "ph \<in> set phrases"
      "literal ph (a, t) = Some r" and x: "\<not> word_opt a" "word_opt (next_char t)" "word_opt (fst r)"
      "\<not> word_opt (next_char (snd r))" by blast
    from phrase_ends[OF ph(1)] have ne: "ph \<noteq> []" by simp
    from ph(2) ne have "literal ph (b, t) = Some r"
      by (simp add: literal_iff)
    with ph(1) have "\<exists>ph\<in>set phrases. literal ph (b, t) = Some r" by blast
    with x that(1) have "pattern (b, t) = Some r"
      unfolding pattern_iff by simp
    then show ?thesis by simp
  qed
  show ?thesis
  proof (cases "pattern (prev, t)")
    case None
    show ?thesis
    proof (cases "pattern (prev', t)")
      case None
      with \<open>pattern (prev, t) = None\<close> show ?thesis by simp
    next
      case (Some r)
      from *[OF assms[symmetric] Some] None show ?thesis by simp
    qed
  next
    case (Some r)
    from *[OF assms Some] Some show ?thesis by simp
  qed
qed

lemma free_prev_cong:
  assumes "word_opt prev = word_opt prev'"
  shows "free prev t = free prev' t"
proof (cases t)
  case Nil
  then show ?thesis by simp
next
  case (Cons c cs)
  show ?thesis unfolding Cons free.simps pattern_prev_cong[OF assms] ..
qed

lemma free_nonword: "\<not> is_word e \<Longrightarrow> free prev (e # es) = free (Some e) es"
  by (simp add: pattern_nonword_None)

section \<open>The output of \<open>re.sub\<close> has no match left\<close>

lemma free_sub_from: "free prev (sub_from prev s)"
proof (induction prev s rule: sub_from.induct)
  case (1 prev)
  show ?case by simp
next
  case (2 prev c cs)
  show ?case
  proof (cases "pattern (prev, c # cs)")
    case None
    from 2(1)[OF None] have "free (Some c) (sub_from (Some c) cs)" .
    with pattern_sub_stable[OF None] have "free prev (c # sub_from (Some c) cs)"
      by (simp only: free.simps simp_thms)
    moreover have "sub_from prev (c # cs) = c # sub_from (Some c) cs"
      using None by simp
    ultimately show ?thesis by (simp only:)
  next
    case (Some r)
    obtain prev' rest where r: "r = (prev', rest)" by (cases r)
    from 2(2)[OF Some r[symmetric]] have ih: "free prev' (sub_from prev' rest)" .
    from pattern_SomeD[OF Some] r have nw: "\<not> word_opt prev" and w': "word_opt prev'"
      and nr: "\<not> word_opt (next_char rest)" by auto
    have out: "sub_from prev (c # cs) = sub_from prev' rest" using Some r by simp
    show ?thesis
    proof (cases rest)
      case Nil
      with out show ?thesis by simp
    next
      case (Cons e es)
      with nr have e: "\<not> is_word e" by simp
      from ih have "free (Some e) (sub_from (Some e) es)"
        unfolding Cons sub_from_nonword[OF e] free_nonword[OF e] .
      then have "free prev (e # sub_from (Some e) es)"
        by (simp only: free_nonword[OF e])
      then show ?thesis unfolding out Cons sub_from_nonword[OF e] .
    qed
  qed
qed

lemma sub_from_free: "free prev t \<Longrightarrow> sub_from prev t = t"
  by (induction t arbitrary: prev) auto

lemma next_char_append: "next_char (t @ v) = (if t = [] then next_char v else next_char t)"
  by (cases t) auto

lemma pattern_append:
  assumes "pattern (prev, t) = Some (p1, rest)" "\<not> word_opt (next_char v)"
  shows "pattern (prev, t @ v) = Some (p1, rest @ v)"
proof -
  from pattern_SomeD[OF assms(1)] obtain ph where ph: "ph \<in> set phrases"
    "literal ph (prev, t) = Some (p1, rest)" and x: "\<not> word_opt prev" "word_opt (next_char t)"
    "word_opt p1" "\<not> word_opt (next_char rest)" by auto
  from phrase_ends[OF ph(1)] have ne: "ph \<noteq> []" by simp
  from x(2) have tne: "t \<noteq> []" by (cases t) auto
  from ph(2) ne have len: "length ph \<le> length t"
    and eq: "map to_lower (take (length ph) t) = map to_lower ph"
    and p1: "p1 = Some (t ! (length ph - 1))" and rest: "rest = drop (length ph) t"
    by (auto simp: literal_iff)
  from ne have "0 < length ph" by simp
  with len have idx: "length ph - 1 < length t" by arith
  have "literal ph (prev, t @ v) = Some (p1, rest @ v)"
    unfolding literal_iff using ne len eq p1 rest idx by (simp add: nth_append)
  with ph(1) have "\<exists>ph\<in>set phrases. literal ph (prev, t @ v) = Some (p1, rest @ v)" by blast
  moreover have "\<not> word_opt (next_char (rest @ v))"
    using x(4) assms(2) by (simp add: next_char_append)
  moreover have "word_opt (next_char (t @ v))"
    using x(2) tne by (simp add: next_char_append)
  ultimately show ?thesis unfolding pattern_iff using x(1,3) by simp
qed

lemma free_prefix:
  assumes "free prev (u @ v)" "\<not> word_opt (next_char v)"
  shows "free prev u"
  using assms(1)
proof (induction u arbitrary: prev)
  case Nil
  show ?case by simp
next
  case (Cons c u)
  from Cons.prems have a: "pattern (prev, (c # u) @ v) = None" and b: "free (Some c) (u @ v)"
    by simp_all
  have "pattern (prev, c # u) = None"
  proof (cases "pattern (prev, c # u)")
    case None
    then show ?thesis .
  next
    case (Some r)
    obtain p1 rest where "r = (p1, rest)" by (cases r)
    with Some pattern_append[OF _ assms(2), of prev "c # u" p1 rest] a show ?thesis by simp
  qed
  with Cons.IH[OF b] show ?case by simp
qed

lemma pattern_lower:
  assumes "pattern (prev, t) = Some r" "map to_lower t = map to_lower t'"
  shows "\<exists>r'. pattern (prev, t') = Some r'"
proof -
  from pattern_SomeD[OF assms(1)] obtain ph where ph: "ph \<in> set phrases"
    "literal ph (prev, t) = Some r" and x: "\<not> word_opt prev" "word_opt (next_char t)"
    "word_opt (fst r)" "\<not> word_opt (next_char (snd r))" by auto
  from phrase_ends[OF ph(1)] have ne: "ph \<noteq> []" by simp
  let ?n = "length ph"
  from ph(2) ne have len: "?n \<le> length t"
    and eq: "map to_lower (take ?n t) = map to_lower ph"
    and r: "r = (Some (t ! (?n - 1)), drop ?n t)"
    by (auto simp: literal_iff)
  from assms(2) have l: "length t' = length t" using map_eq_imp_length_eq by metis
  have nth: "to_lower (t' ! i) = to_lower (t ! i)" if "i < length t" for i
    using arg_cong[OF assms(2), of "\<lambda>xs. xs ! i"] that l by simp
  have w: "is_word (t' ! i) = is_word (t ! i)" if "i < length t" for i
    using nth[OF that] is_word_lower[of "t' ! i"] is_word_lower[of "t ! i"] by simp
  from ne have pos: "0 < ?n" by simp
  have eq': "map to_lower (take ?n t') = map to_lower ph"
    using eq assms(2) by (simp add: take_map[symmetric])
  let ?r' = "(Some (t' ! (?n - 1)), drop ?n t')"
  have lit: "literal ph (prev, t') = Some ?r'"
    unfolding literal_iff using ne len l eq' by simp
  have a: "word_opt (next_char t')"
  proof -
    from len pos have lt: "0 < length t" by arith
    from x(2) have "is_word (t ! 0)" by (cases t) auto
    with w[OF lt] have "is_word (t' ! 0)" by simp
    with l lt show ?thesis by (cases t') auto
  qed
  from len pos have last_lt: "?n - 1 < length t" by arith
  have b: "word_opt (fst ?r')"
    using x(3) r w[OF last_lt] by simp
  have c: "\<not> word_opt (next_char (snd ?r'))"
  proof (cases "?n < length t")
    case True
    then have "drop ?n t = t ! ?n # drop (Suc ?n) t" "drop ?n t' = t' ! ?n # drop (Suc ?n) t'"
      using l by (simp_all add: Cons_nth_drop_Suc)
    with x(4) r w[OF True] show ?thesis by simp
  next
    case False
    with l show ?thesis by simp
  qed
  from lit ph(1) have "\<exists>ph\<in>set phrases. literal ph (prev, t') = Some ?r'" by blast
  with a b c x(1) have "pattern (prev, t') = Some ?r'"
    unfolding pattern_iff by simp
  then show ?thesis by blast
qed

lemma pattern_lower_None:
  assumes "map to_lower t = map to_lower t'"
  shows "(pattern (prev, t) = None) = (pattern (prev, t') = None)"
proof (cases "pattern (prev, t)")
  case None
  show ?thesis
  proof (cases "pattern (prev, t')")
    case None
    with \<open>pattern (prev, t) = None\<close> show ?thesis by simp
  next
    case (Some r)
    from pattern_lower[OF Some assms[symmetric]] None show ?thesis by simp
  qed
next
  case (Some r)
  from pattern_lower[OF Some assms] Some show ?thesis by auto
qed

lemma free_lower:
  assumes "map to_lower t = map to_lower t'" "word_opt prev = word_opt prev'"
  shows "free prev t = free prev' t'"
  using assms
proof (induction t arbitrary: t' prev prev')
  case Nil
  then show ?case by simp
next
  case (Cons c cs)
  then obtain c' cs' where t': "t' = c' # cs'" and c: "to_lower c = to_lower c'"
    and cs: "map to_lower cs = map to_lower cs'"
    by (cases t') auto
  from c have w: "word_opt (Some c) = word_opt (Some c')"
    using is_word_lower[of c] is_word_lower[of c'] by simp
  have "(pattern (prev, c # cs) = None) = (pattern (prev', c # cs) = None)"
    by (rule pattern_prev_cong[OF Cons.prems(2)])
  also have "\<dots> = (pattern (prev', c' # cs') = None)"
    by (rule pattern_lower_None) (simp add: c cs)
  finally show ?case
    unfolding t' free.simps using Cons.IH[OF cs w] by simp
qed

section \<open>Stripping and capitalizing\<close>

lemma free_dropWhile:
  assumes "free prev t" "\<not> word_opt prev"
  shows "free prev (dropWhile is_space t)"
  using assms(1)
proof (induction t)
  case Nil
  show ?case by simp
next
  case (Cons c cs)
  show ?case
  proof (cases "is_space c")
    case True
    from Cons.prems have "free (Some c) cs" by simp
    moreover have "word_opt (Some c) = word_opt prev"
      using space_not_word[OF True] assms(2) by simp
    ultimately have "free prev cs" using free_prev_cong by blast
    with Cons.IH True show ?thesis by simp
  next
    case False
    with Cons.prems show ?thesis by simp
  qed
qed

lemma dropWhile_strip:
  "dropWhile is_space t = strip t @ rev (takeWhile is_space (rev (dropWhile is_space t)))"
proof -
  let ?y = "dropWhile is_space t"
  have "rev (takeWhile is_space (rev ?y) @ dropWhile is_space (rev ?y)) = rev (rev ?y)"
    by (simp only: takeWhile_dropWhile_id)
  then show ?thesis unfolding strip_def by (simp only: rev_append rev_rev_ident)
qed

lemma spaces_next_nonword:
  assumes "\<forall>c\<in>set w. is_space c"
  shows "\<not> word_opt (next_char w)"
  using assms space_not_word by (cases w) auto

lemma free_strip:
  assumes "free None t"
  shows "free None (strip t)"
proof -
  let ?w = "rev (takeWhile is_space (rev (dropWhile is_space t)))"
  from free_dropWhile[OF assms] have "free None (dropWhile is_space t)" by simp
  then have "free None (strip t @ ?w)"
    using dropWhile_strip[of t] by simp
  moreover have "\<forall>c\<in>set ?w. is_space c"
    by (auto dest: set_takeWhileD)
  ultimately show ?thesis using free_prefix spaces_next_nonword by blast
qed

lemma map_lower_capitalize: "map to_lower (capitalize t) = map to_lower t"
  by (cases t) (simp_all add: to_lower_upper to_lower_idem)

lemma free_capitalize: "free None (capitalize t) = free None t"
  by (rule free_lower) (simp_all add: map_lower_capitalize)

lemma capitalize_idem: "capitalize (capitalize t) = capitalize t"
  by (cases t) (simp_all add: to_upper_idem to_lower_idem)

lemma last_dropWhile_eq:
  "dropWhile P xs \<noteq> [] \<Longrightarrow> last (dropWhile P xs) = last xs"
  by (metis last_appendR takeWhile_dropWhile_id)

lemma strip_ends:
  assumes "strip t \<noteq> []"
  shows "\<not> is_space (hd (strip t))" "\<not> is_space (last (strip t))"
proof -
  let ?y = "dropWhile is_space t"
  let ?z = "dropWhile is_space (rev ?y)"
  from assms have z: "?z \<noteq> []" by (simp add: strip_def)
  have y: "?y \<noteq> []"
  proof
    assume "?y = []"
    then have "?z = []" by (simp only: rev.simps dropWhile.simps)
    with z show False ..
  qed
  from z have "\<not> is_space (hd ?z)" by (rule hd_dropWhile)
  then show "\<not> is_space (last (strip t))"
    using z by (simp add: strip_def last_rev)
  have "hd (strip t) = last ?z" using z by (simp add: strip_def hd_rev)
  also have "\<dots> = last (rev ?y)" using z by (rule last_dropWhile_eq)
  also have "\<dots> = hd ?y" using y by (simp add: last_rev)
  finally show "\<not> is_space (hd (strip t))"
    using hd_dropWhile[OF y] by simp
qed

lemma strip_id:
  assumes "x \<noteq> []" "\<not> is_space (hd x)" "\<not> is_space (last x)"
  shows "strip x = x"
proof -
  from assms(1,2) have a: "dropWhile is_space x = x" by (cases x) auto
  from assms(1,3) have "dropWhile is_space (rev x) = rev x"
    by (cases "rev x") (auto simp: hd_rev[symmetric])
  with a show ?thesis by (simp add: strip_def)
qed

lemma capitalize_ends:
  assumes "x \<noteq> []"
  shows "capitalize x \<noteq> []" "is_space (hd (capitalize x)) = is_space (hd x)"
    "is_space (last (capitalize x)) = is_space (last x)"
proof -
  obtain c cs where x: "x = c # cs" using assms by (cases x) auto
  show "capitalize x \<noteq> []" by (simp add: x)
  show "is_space (hd (capitalize x)) = is_space (hd x)"
    by (simp add: x is_space_upper)
  show "is_space (last (capitalize x)) = is_space (last x)"
    by (cases cs rule: rev_cases) (simp_all add: x is_space_upper is_space_lower)
qed

lemma strip_capitalize_strip: "strip (capitalize (strip t)) = capitalize (strip t)"
proof (cases "strip t = []")
  case True
  have "strip [] = []" by (simp add: strip_def)
  with True show ?thesis by simp
next
  case False
  from strip_ends[OF False] capitalize_ends[OF False]
  show ?thesis by (intro strip_id) simp_all
qed

lemma free_clean_caption: "free None (clean_caption s)"
  unfolding clean_caption_def re_sub_def free_capitalize
  by (rule free_strip) (rule free_sub_from)

lemma clean_caption_idem: "clean_caption (clean_caption s) = clean_caption s"
proof -
  have "re_sub (clean_caption s) = clean_caption s"
    unfolding re_sub_def by (rule sub_from_free) (rule free_clean_caption)
  then have "clean_caption (clean_caption s) = capitalize (strip (clean_caption s))"
    by (simp add: clean_caption_def[of "clean_caption s"])
  also have "\<dots> = capitalize (capitalize (strip (re_sub s)))"
    by (simp add: clean_caption_def[of s] strip_capitalize_strip)
  also have "\<dots> = clean_caption s"
    by (simp add: capitalize_idem clean_caption_def)
  finally show ?thesis .
qed

section \<open>Occurrences by position\<close>

text \<open>
  The matcher succeeds at a position exactly where a whole-word occurrence of a phrase
  starts; occurrences do not overlap, so the scan of \<open>re.sub\<close> meets every one of them.
\<close>

lemma next_char_drop:
  "next_char (drop k s) = (if k < length s then Some (s ! k) else None)"
proof (cases "k < length s")
  case True
  from Cons_nth_drop_Suc[OF True] have "drop k s = s ! k # drop (Suc k) s" by simp
  then have "next_char (drop k s) = Some (s ! k)" by (simp only: next_char_simps)
  with True show ?thesis by simp
next
  case False
  then show ?thesis by simp
qed

lemma occurrence_pattern:
  assumes "ph \<in> set phrases" "occurrence s i ph"
  shows "pattern (cursor_at s i) = Some (cursor_at s (i + length ph))"
proof -
  let ?n = "length ph"
  from phrase_ends[OF assms(1)] have ne: "ph \<noteq> []" by simp
  then have pos: "0 < ?n" by simp
  from assms(2) have len: "i + ?n \<le> length s"
    and eq: "map to_lower (take ?n (drop i s)) = ph"
    and before: "i = 0 \<or> \<not> is_word (s ! (i - 1))"
    and after: "i + ?n = length s \<or> \<not> is_word (s ! (i + ?n))"
    by (auto simp: occurrence_def phrase_at_def)
  let ?prev = "if i = 0 then None else Some (s ! (i - 1))"
  let ?r = "cursor_at s (i + ?n)"
  from pos have idx: "i + ?n - Suc 0 = i + (?n - Suc 0)" by arith
  have r: "?r = (Some (drop i s ! (?n - 1)), drop ?n (drop i s))"
    using pos len by (simp add: cursor_at_def add.commute idx)
  have lit: "literal ph (?prev, drop i s) = Some ?r"
    unfolding literal_iff r using ne len eq phrase_lower[OF assms(1)] by simp
  from literal_phrase_ends[OF assms(1) lit]
  have a: "word_opt (next_char (drop i s))" and b: "word_opt (fst ?r)" by simp_all
  have c: "\<not> word_opt ?prev" using before by (auto simp: cursor_at_def)
  have d: "\<not> word_opt (next_char (snd ?r))"
    using after len by (auto simp: cursor_at_def next_char_drop)
  have cur: "cursor_at s i = (?prev, drop i s)" by (simp add: cursor_at_def)
  from lit assms(1) have "\<exists>ph\<in>set phrases. literal ph (?prev, drop i s) = Some ?r"
    by blast
  moreover from a c
  have "word_opt (fst (?prev, drop i s)) \<noteq> word_opt (next_char (snd (?prev, drop i s)))"
    by (simp only: fst_conv snd_conv simp_thms)
  moreover from b d have "word_opt (fst ?r) \<noteq> word_opt (next_char (snd ?r))"
    by (simp only: simp_thms)
  ultimately have "pattern (?prev, drop i s) = Some ?r"
    using pattern_iff[of "(?prev, drop i s)" ?r] by blast
  then show ?thesis by (simp only: cur)
qed

lemma pattern_occurrence:
  assumes "pattern (cursor_at s i) = Some r"
  shows "\<exists>ph\<in>set phrases. occurrence s i ph \<and> r = cursor_at s (i + length ph)"
proof -
  let ?prev = "if i = 0 then None else Some (s ! (i - 1))"
  have cur: "cursor_at s i = (?prev, drop i s)" by (simp add: cursor_at_def)
  from pattern_SomeD[OF assms[unfolded cur]] obtain ph where ph: "ph \<in> set phrases"
    "literal ph (?prev, drop i s) = Some r" and x: "\<not> word_opt ?prev"
    "word_opt (fst r)" "\<not> word_opt (next_char (snd r))" by auto
  let ?n = "length ph"
  from phrase_ends[OF ph(1)] have ne: "ph \<noteq> []" by simp
  then have pos: "0 < ?n" by simp
  from ph(2) ne have len: "?n \<le> length (drop i s)"
    and eq: "map to_lower (take ?n (drop i s)) = ph"
    and r: "r = (Some (drop i s ! (?n - 1)), drop ?n (drop i s))"
    using phrase_lower[OF ph(1)] by (auto simp: literal_iff)
  from len have "?n \<le> length s - i" by simp
  with pos have len': "i + ?n \<le> length s" by arith
  from pos have idx: "i + (?n - 1) = i + ?n - 1" by arith
  from len' have "i \<le> length s" by arith
  then have "drop i s ! (?n - 1) = s ! (i + (?n - 1))" by (rule nth_drop)
  then have e1: "drop i s ! (?n - 1) = s ! (i + ?n - 1)" by (simp only: idx)
  have e2: "drop ?n (drop i s) = drop (i + ?n) s" by (simp add: add.commute)
  from pos have e3: "i + ?n \<noteq> 0" by arith
  have r': "r = cursor_at s (i + ?n)"
    unfolding cursor_at_def r e1 e2 using e3 by (simp only: if_False)
  have "i = 0 \<or> \<not> is_word (s ! (i - 1))"
    using x(1) by (auto simp: cursor_at_def split: if_splits)
  moreover have "i + ?n = length s \<or> \<not> is_word (s ! (i + ?n))"
    using x(3) len' unfolding r' by (auto simp: cursor_at_def next_char_drop split: if_splits)
  ultimately have "occurrence s i ph"
    using len' eq by (simp add: occurrence_def phrase_at_def)
  with ph(1) r' show ?thesis by blast
qed

lemma occurrence_unique:
  assumes "ph \<in> set phrases" "ph' \<in> set phrases" "occurrence s i ph" "occurrence s i ph'"
  shows "ph = ph'"
proof -
  from occurrence_pattern[OF assms(1,3)] occurrence_pattern[OF assms(2,4)]
  have "drop (i + length ph) s = drop (i + length ph') s"
    by (simp add: cursor_at_def)
  then have "length s - (i + length ph) = length s - (i + length ph')"
    by (metis length_drop)
  moreover from assms(3,4) have "i + length ph \<le> length s" "i + length ph' \<le> length s"
    by (simp_all add: occurrence_def phrase_at_def)
  ultimately have "length ph = length ph'" by arith
  with assms(3,4) show ?thesis by (auto simp: occurrence_def phrase_at_def)
qed

lemma phrase_inner_start:
  assumes "ph \<in> set phrases" "Suc d < length ph" "\<not> is_word (ph ! d)"
  shows "\<not> is_word (ph ! Suc d) \<or> to_lower (ph ! Suc d) \<noteq> CHR ''a''"
proof -
  have *: "list_all (\<lambda>ph. list_all (\<lambda>d. is_word (ph ! d) \<or> to_lower (ph ! Suc d) \<noteq> CHR ''a'')
      [0..<length ph - 1]) phrases"
    by code_simp
  from assms(2) have "d \<in> set [0..<length ph - 1]" by simp
  with * assms(1,3) show ?thesis
    unfolding list_all_iff by blast
qed

lemma phrase_at_nth:
  assumes "phrase_at s i ph" "e < length ph"
  shows "to_lower (s ! (i + e)) = ph ! e"
proof -
  from assms(1) have len: "i + length ph \<le> length s"
    and eq: "map to_lower (take (length ph) (drop i s)) = ph"
    by (simp_all add: phrase_at_def)
  from len have i: "i \<le> length s" by arith
  from len assms(2) have e: "e < length (take (length ph) (drop i s))" by simp
  have "ph ! e = map to_lower (take (length ph) (drop i s)) ! e" by (simp only: eq)
  also have "\<dots> = to_lower (take (length ph) (drop i s) ! e)" using e by (rule nth_map)
  also have "take (length ph) (drop i s) ! e = drop i s ! e" using assms(2) by (rule nth_take)
  also have "drop i s ! e = s ! (i + e)" using i by (rule nth_drop)
  finally show ?thesis by simp
qed

lemma phrase_first: "ph \<in> set phrases \<Longrightarrow> ph ! 0 = CHR ''a''"
  by (auto simp: phrases_def)

lemma occurrence_no_overlap:
  assumes "ph \<in> set phrases" "ph' \<in> set phrases"
    and "occurrence s i ph" "occurrence s j ph'" "i < j" "j < i + length ph"
  shows False
proof -
  define d where "d = j - i - 1"
  from assms(5,6) have d: "Suc d < length ph" "i + d = j - 1" "i + Suc d = j"
    by (simp_all add: d_def)
  from assms(3) have pa: "phrase_at s i ph" by (simp add: occurrence_def)
  from assms(4) have pa': "phrase_at s j ph'" and nw: "\<not> is_word (s ! (j - 1))"
    using assms(5) by (auto simp: occurrence_def)
  from phrase_ends[OF assms(2)] have "0 < length ph'" by simp
  from phrase_at_nth[OF pa' this] phrase_first[OF assms(2)]
  have a: "to_lower (s ! j) = CHR ''a''" by simp
  from d(1) have "d < length ph" by arith
  from phrase_at_nth[OF pa this] d(2) have "ph ! d = to_lower (s ! (j - 1))" by simp
  with nw have n: "\<not> is_word (ph ! d)" by (simp add: is_word_lower)
  from phrase_at_nth[OF pa d(1)] d(3) a have e: "ph ! Suc d = CHR ''a''" by simp
  have "is_word (CHR ''a'')" "to_lower (CHR ''a'') = CHR ''a''"
    by (simp_all add: is_word_def is_lower_def is_upper_def to_lower_def code_def)
  with phrase_inner_start[OF assms(1) d(1) n] e show False by simp
qed

lemma covered_iff:
  "covered s k \<longleftrightarrow> (\<exists>ph\<in>set phrases. \<exists>i\<le>k. occurrence s i ph \<and> k < i + length ph)"
proof -
  have "(\<exists>i\<in>set [0..<Suc k]. P i) = (\<exists>i\<le>k. P i)" for P
    unfolding set_upt Bex_def atLeastLessThan_iff less_Suc_eq_le by simp
  then show ?thesis by (simp only: covered_def list_ex_iff)
qed

lemma cursor_at_Suc: "fst (cursor_at s (Suc i)) = Some (s ! i)"
  by (simp add: cursor_at_def)

lemma sub_from_removed_from:
  assumes "i \<le> length s"
    and "\<And>j ph. j < i \<Longrightarrow> ph \<in> set phrases \<Longrightarrow> occurrence s j ph \<Longrightarrow> j + length ph \<le> i"
  shows "sub_from (fst (cursor_at s i)) (drop i s)
    = map (\<lambda>k. s ! k) (filter (\<lambda>k. \<not> covered s k) [i..<length s])"
  using assms
proof (induction "length s - i" arbitrary: i rule: less_induct)
  case less
  note inv = less.prems(2)
  show ?case
  proof (cases "i = length s")
    case True
    then show ?thesis by simp
  next
    case False
    with less.prems(1) have lt: "i < length s" by arith
    let ?prev = "if i = 0 then None else Some (s ! (i - 1))"
    have prev: "fst (cursor_at s i) = ?prev" by (simp add: cursor_at_def)
    have dr: "drop i s = s ! i # drop (Suc i) s"
      using Cons_nth_drop_Suc[OF lt] by (rule sym)
    have cur: "cursor_at s i = (?prev, s ! i # drop (Suc i) s)"
      unfolding cursor_at_def dr[symmetric] ..
    show ?thesis
    proof (cases "pattern (cursor_at s i)")
      case None
      have no_occ: "\<not> occurrence s i ph" if "ph \<in> set phrases" for ph
        using occurrence_pattern[OF that] None by auto
      have inv': "j + length ph \<le> Suc i"
        if "j < Suc i" "ph \<in> set phrases" "occurrence s j ph" for j ph
      proof (cases "j = i")
        case True
        with that no_occ show ?thesis by simp
      next
        case False
        with that(1) have "j < i" by arith
        from inv[OF this that(2,3)] show ?thesis by arith
      qed
      have ih: "sub_from (fst (cursor_at s (Suc i))) (drop (Suc i) s)
        = map (\<lambda>k. s ! k) (filter (\<lambda>k. \<not> covered s k) [Suc i..<length s])"
      proof (rule less.hyps)
        show "length s - Suc i < length s - i" using lt by arith
        show "Suc i \<le> length s" using lt by arith
        show "\<And>j ph. j < Suc i \<Longrightarrow> ph \<in> set phrases \<Longrightarrow> occurrence s j ph
          \<Longrightarrow> j + length ph \<le> Suc i" by (rule inv')
      qed
      have nc: "\<not> covered s i"
      proof
        assume "covered s i"
        then obtain ph j where ph: "ph \<in> set phrases" and j: "j \<le> i" "occurrence s j ph"
          "i < j + length ph" by (auto simp: covered_iff)
        show False
        proof (cases "j = i")
          case True
          with j(2) no_occ[OF ph] show False by simp
        next
          case False
          with j(1) have "j < i" by arith
          from inv[OF this ph j(2)] j(3) show False by arith
        qed
      qed
      from None have "pattern (?prev, s ! i # drop (Suc i) s) = None"
        by (simp only: cur)
      then have "sub_from ?prev (s ! i # drop (Suc i) s)
          = s ! i # sub_from (Some (s ! i)) (drop (Suc i) s)"
        by (simp only: sub_from.simps option.case)
      also have "\<dots> = s ! i # map (\<lambda>k. s ! k) (filter (\<lambda>k. \<not> covered s k) [Suc i..<length s])"
        using ih by (simp only: cursor_at_Suc)
      also have "\<dots> = map (\<lambda>k. s ! k) (filter (\<lambda>k. \<not> covered s k) [i..<length s])"
        using nc lt by (simp add: upt_conv_Cons)
      finally show ?thesis by (simp only: prev dr[symmetric])
    next
      case (Some r)
      from pattern_occurrence[OF Some] obtain ph where ph: "ph \<in> set phrases"
        and occ: "occurrence s i ph" and r: "r = cursor_at s (i + length ph)" by blast
      let ?n = "length ph"
      from phrase_ends[OF ph] have pos: "0 < ?n" by simp
      from occ have len: "i + ?n \<le> length s" by (simp add: occurrence_def phrase_at_def)
      have inv': "j + length ph' \<le> i + ?n"
        if "j < i + ?n" "ph' \<in> set phrases" "occurrence s j ph'" for j ph'
      proof -
        consider "j < i" | "j = i" | "i < j"
          by arith
        then show ?thesis
        proof cases
          case 1
          from inv[OF 1 that(2,3)] show ?thesis by arith
        next
          case 2
          with occurrence_unique[OF ph that(2) occ] that(3) show ?thesis by simp
        next
          case 3
          from occurrence_no_overlap[OF ph that(2) occ that(3) 3 that(1)] show ?thesis ..
        qed
      qed
      have ih: "sub_from (fst (cursor_at s (i + ?n))) (drop (i + ?n) s)
        = map (\<lambda>k. s ! k) (filter (\<lambda>k. \<not> covered s k) [i + ?n..<length s])"
      proof (rule less.hyps)
        show "length s - (i + ?n) < length s - i" using lt pos by arith
        show "i + ?n \<le> length s" by (rule len)
        show "\<And>j ph'. j < i + ?n \<Longrightarrow> ph' \<in> set phrases \<Longrightarrow> occurrence s j ph'
          \<Longrightarrow> j + length ph' \<le> i + ?n" by (rule inv')
      qed
      have cov: "filter (\<lambda>k. \<not> covered s k) [i..<i + ?n] = []"
      proof -
        have "covered s k" if "k \<in> set [i..<i + ?n]" for k
          unfolding covered_iff using that ph occ by auto
        then show ?thesis by (simp add: filter_empty_conv)
      qed
      have split: "[i..<length s] = [i..<i + ?n] @ [i + ?n..<length s]"
        using len by (metis le_add1 le_Suc_ex upt_add_eq_append)
      have r': "r = (fst (cursor_at s (i + ?n)), drop (i + ?n) s)"
        unfolding r by (simp add: cursor_at_def)
      from Some have "pattern (?prev, s ! i # drop (Suc i) s)
          = Some (fst (cursor_at s (i + ?n)), drop (i + ?n) s)"
        by (simp only: cur r'[symmetric])
      then have "sub_from ?prev (s ! i # drop (Suc i) s)
          = sub_from (fst (cursor_at s (i + ?n))) (drop (i + ?n) s)"
        by (simp only: sub_from.simps option.case prod.case)
      also note ih
      finally have "sub_from (fst (cursor_at s i)) (drop i s)
          = map (\<lambda>k. s ! k) (filter (\<lambda>k. \<not> covered s k) [i + ?n..<length s])"
        by (simp only: prev dr[symmetric])
      then show ?thesis unfolding split filter_append cov by simp
    qed
  qed
qed

lemma re_sub_removed: "re_sub s = removed s"
  using sub_from_removed_from[of 0 s]
  by (simp add: re_sub_def removed_def cursor_at_def)

lemma free_nth:
  assumes "free prev t" "j < length t"
  shows "pattern (if j = 0 then prev else Some (t ! (j - 1)), drop j t) = None"
  using assms
proof (induction t arbitrary: prev j)
  case Nil
  then show ?case by simp
next
  case (Cons c cs)
  show ?case
  proof (cases j)
    case 0
    with Cons.prems show ?thesis by simp
  next
    case (Suc j')
    from Cons.prems have f: "free (Some c) cs" and lt: "j' < length cs"
      by (simp_all add: Suc)
    from Cons.IH[OF f lt] show ?thesis
      by (cases j') (simp_all add: Suc)
  qed
qed

lemma free_no_occurrence:
  assumes "free None c" "ph \<in> set phrases"
  shows "\<not> occurrence c i ph"
proof
  assume occ: "occurrence c i ph"
  from phrase_ends[OF assms(2)] have "0 < length ph" by simp
  moreover from occ have "i + length ph \<le> length c"
    by (simp add: occurrence_def phrase_at_def)
  ultimately have "i < length c" by arith
  from free_nth[OF assms(1) this] have "pattern (cursor_at c i) = None"
    by (simp add: cursor_at_def)
  with occurrence_pattern[OF assms(2) occ] show False by simp
qed

lemma to_upper_fixed: "to_upper c = c \<longleftrightarrow> \<not> is_lower c"
proof (cases "is_lower c")
  case True
  then have "code c - 32 < 256" unfolding is_lower_def by arith
  then have "code (char_of (code c - 32)) = code c - 32"
    by (simp add: code_def)
  with True have "code (to_upper c) = code c - 32"
    by (simp add: to_upper_def)
  with True have "code (to_upper c) \<noteq> code c" unfolding is_lower_def by arith
  then have "to_upper c \<noteq> c" by auto
  with True show ?thesis by simp
next
  case False
  then show ?thesis by (simp add: to_upper_def)
qed

lemma to_lower_fixed: "to_lower c = c \<longleftrightarrow> \<not> is_upper c"
proof (cases "is_upper c")
  case True
  then have "code c + 32 < 256" unfolding is_upper_def by arith
  then have "code (char_of (code c + 32)) = code c + 32"
    by (simp add: code_def)
  with True have "code (to_lower c) = code c + 32"
    by (simp add: to_lower_def)
  then have "code (to_lower c) \<noteq> code c" by arith
  then have "to_lower c \<noteq> c" by auto
  with True show ?thesis by simp
next
  case False
  then show ?thesis by (simp add: to_lower_def)
qed

lemma process_image_Some_clean:
  assumes "process_image engine path s = (Inr (Some c), s')"
  shows "\<exists>raw. c = clean_caption raw"
  using assms
  by (auto simp: process_image_def try_body_def Let_def split: prod.splits sum.splits if_splits)

lemma capitalize_shape:
  assumes "capitalize c = c" "c \<noteq> []"
  shows "\<not> is_lower (hd c)" "list_all (\<lambda>x. \<not> is_upper x) (tl c)"
proof -
  from assms(2) obtain x xs where c: "c = x # xs" by (cases c) auto
  from assms(1) have a: "to_upper x = x" and b: "map to_lower xs = xs" by (simp_all add: c)
  from a show "\<not> is_lower (hd c)" by (simp add: c to_upper_fixed)
  from b have "map to_lower xs = map (\<lambda>y. y) xs" by simp
  then have "to_lower y = y" if "y \<in> set xs" for y
    using that by (simp only: map_eq_conv)
  then show "list_all (\<lambda>x. \<not> is_upper x) (tl c)"
    by (simp add: c list_all_iff to_lower_fixed)
qed

lemma map_lower_upper_first: "map to_lower (upper_first t) = map to_lower t"
  by (cases t) (simp_all add: to_lower_upper)

section \<open>ASCII text stays ASCII\<close>

lemma set_sub_from: "set (sub_from prev s) \<subseteq> set s"
proof (induction prev s rule: sub_from.induct)
  case (1 prev)
  show ?case by simp
next
  case (2 prev c cs)
  show ?case
  proof (cases "pattern (prev, c # cs)")
    case None
    with 2(1)[OF None] show ?thesis by auto
  next
    case (Some r)
    obtain prev' rest where r: "r = (prev', rest)" by (cases r)
    from pattern_SomeD(5)[OF Some] obtain ph where "literal ph (prev, c # cs) = Some r" by blast
    then have "rest = drop (length ph) (c # cs)" by (simp add: literal_iff r)
    then have sub: "set rest \<subseteq> set (c # cs)"
      using set_drop_subset[of "length ph" "c # cs"] by (simp only:)
    have e: "sub_from prev (c # cs) = sub_from prev' rest" using Some r by simp
    show ?thesis unfolding e using 2(2)[OF Some r[symmetric]] sub by (rule subset_trans)
  qed
qed

lemma set_strip: "set (strip s) \<subseteq> set s"
proof -
  have a: "set (dropWhile is_space xs) \<subseteq> set xs" for xs
  proof
    fix x assume "x \<in> set (dropWhile is_space xs)"
    then show "x \<in> set xs" by (rule set_dropWhileD)
  qed
  have "set (strip s) = set (dropWhile is_space (rev (dropWhile is_space s)))"
    unfolding strip_def by (rule set_rev)
  also have "\<dots> \<subseteq> set (rev (dropWhile is_space s))" by (rule a)
  also have "\<dots> = set (dropWhile is_space s)" by (rule set_rev)
  also have "\<dots> \<subseteq> set s" by (rule a)
  finally show ?thesis .
qed

lemma code_to_upper: "code (to_upper c) \<le> code c"
proof (cases "is_lower c")
  case True
  then have "code c - 32 < 256" unfolding is_lower_def by arith
  then have "code (char_of (code c - 32)) = code c - 32" by (simp add: code_def)
  with True show ?thesis by (simp add: to_upper_def)
next
  case False
  then show ?thesis by (simp add: to_upper_def)
qed

lemma code_to_lower: "code c < 128 \<Longrightarrow> code (to_lower c) < 128"
proof (cases "is_upper c")
  case True
  then have b: "code c + 32 < 128" unfolding is_upper_def by arith
  then have "code c + 32 < 256" by arith
  then have "code (char_of (code c + 32)) = code c + 32" by (simp add: code_def)
  with True b show ?thesis by (simp add: to_lower_def)
next
  case False
  assume "code c < 128"
  with False show ?thesis by (simp add: to_lower_def)
qed

lemma ascii_capitalize: "ascii s \<Longrightarrow> ascii (capitalize s)"
proof (cases s)
  case Nil
  then show ?thesis by (simp add: ascii_def)
next
  case (Cons c cs)
  assume "ascii s"
  then have c: "code c < 128" and cs: "\<forall>x\<in>set cs. code x < 128"
    by (simp_all add: ascii_def Cons list_all_iff)
  from c code_to_upper[of c] have "code (to_upper c) < 128" by arith
  moreover from cs have "\<forall>x\<in>set cs. code (to_lower x) < 128"
    using code_to_lower by blast
  ultimately show ?thesis by (simp add: ascii_def Cons list_all_iff)
qed

lemma ascii_subset: "ascii s \<Longrightarrow> set t \<subseteq> set s \<Longrightarrow> ascii t"
  unfolding ascii_def list_all_iff by blast

lemma ascii_clean_caption:
  assumes "ascii s"
  shows "ascii (clean_caption s)"
proof -
  have "set (strip (sub_from None s)) \<subseteq> set s"
    using set_strip[of "sub_from None s"] set_sub_from[of None s] by (rule subset_trans)
  with assms have "ascii (strip (sub_from None s))" by (rule ascii_subset)
  then show ?thesis unfolding clean_caption_def re_sub_def by (rule ascii_capitalize)
qed

section \<open>The batch orchestrator\<close>

text \<open>
  Claim C1. \<open>generate_batch_captions\<close> returns exactly the records of the calls of
  \<open>process_image\<close> that gave a caption, in the order of the input list: one call for
  each input path, a record only for a call whose result is not null, so at most as
  many records as paths, and the paths of the records form a subsequence of the input.
\<close>

theorem generate_batch_captions_successes:
  "fst (generate_batch_captions engine image_paths s)
     = Inr (List.map_filter record_of (calls engine image_paths s))
   \<and> map fst (calls engine image_paths s) = image_paths
   \<and> length (List.map_filter record_of (calls engine image_paths s)) \<le> length image_paths
   \<and> subseq (map rpath (List.map_filter record_of (calls engine image_paths s))) image_paths"
proof -
  have a: "fst (generate_batch_captions engine image_paths s)
     = Inr (List.map_filter record_of (calls engine image_paths s))"
    using batch_loop_calls[of engine image_paths "[]" s]
    by (simp add: generate_batch_captions_def)
  have b: "length (List.map_filter record_of (calls engine image_paths s)) \<le> length image_paths"
    using map_filter_length[of record_of "calls engine image_paths s"]
      arg_cong[OF calls_paths[of engine image_paths s], of length] by simp
  have c: "subseq (map rpath (List.map_filter record_of (calls engine image_paths s))) image_paths"
    using subseq_records[of "calls engine image_paths s"] by (simp add: calls_paths)
  from a b c calls_paths show ?thesis by blast
qed

theorem generate_batch_captions_successes_witness:
  "fst (generate_batch_captions sample_engine [''dog.png'', ''missing.png'', ''cat.png''] start)
     = Inr [\<lparr>rpath = ''dog.png'', rcaption = ''A dog''\<rparr>,
            \<lparr>rpath = ''cat.png'', rcaption = ''A dog''\<rparr>]
   \<and> calls sample_engine [''dog.png'', ''missing.png'', ''cat.png''] start
     = [(''dog.png'', Inr (Some ''A dog'')), (''missing.png'', Inr None),
        (''cat.png'', Inr (Some ''A dog''))]"
proof -
  have c: "calls sample_engine [''dog.png'', ''missing.png'', ''cat.png''] start
     = [(''dog.png'', Inr (Some ''A dog'')), (''missing.png'', Inr None),
        (''cat.png'', Inr (Some ''A dog''))]"
    by code_simp
  show ?thesis
    using generate_batch_captions_successes
      [of sample_engine "[''dog.png'', ''missing.png'', ''cat.png'']" start]
    unfolding c by (simp add: map_filter_simps)
qed

section \<open>Error isolation in \<open>process_image\<close>\<close>

text \<open>
  Claim C4. No exception leaves \<open>process_image\<close>.  When the pipeline raises, or the
  empty-caption check raises, the function returns null and appends to the error
  stream one line, which contains the path.  A run with at least one image path ends
  with exit status 0, whatever happened to the images.
\<close>

theorem process_image_catches:
  "(\<exists>r s'. process_image engine path s = (Inr r, s'))
   \<and> (\<forall>e w'. engine (world s) path = (Inl e, w') \<longrightarrow>
         process_image engine path s =
           (Inr None, s\<lparr>world := w',
              stderr := stderr s @ [''Error processing '' @ path @ '': '' @ str_exn e]\<rparr>))
   \<and> (\<forall>raw w'. engine (world s) path = (Inr raw, w') \<and> strip (clean_caption raw) = [] \<longrightarrow>
         process_image engine path s =
           (Inr None, s\<lparr>world := w',
              stderr := stderr s
                @ [''Error processing '' @ path @ '': '' @ ''Empty caption generated'']\<rparr>))
   \<and> (\<forall>m. sublist path (''Error processing '' @ path @ '': '' @ m))
   \<and> (2 \<le> length argv \<longrightarrow> fst (main engine argv s) = 0)"
proof (intro conjI allI impI)
  show "\<exists>r s'. process_image engine path s = (Inr r, s')"
    by (rule process_image_returns)
next
  fix e w' assume "engine (world s) path = (Inl e, w')"
  then show "process_image engine path s =
      (Inr None, s\<lparr>world := w',
         stderr := stderr s @ [''Error processing '' @ path @ '': '' @ str_exn e]\<rparr>)"
    by (simp add: process_image_def try_body_def)
next
  fix raw w'
  assume "engine (world s) path = (Inr raw, w') \<and> strip (clean_caption raw) = []"
  then show "process_image engine path s =
      (Inr None, s\<lparr>world := w',
         stderr := stderr s
           @ [''Error processing '' @ path @ '': '' @ ''Empty caption generated'']\<rparr>)"
    by (simp add: process_image_def try_body_def)
next
  fix m show "sublist path (''Error processing '' @ path @ '': '' @ m)"
    unfolding sublist_def by blast
next
  assume "2 \<le> length argv"
  then have "length argv = 2 \<or> 2 < length argv" by arith
  then show "fst (main engine argv s) = 0"
    using main_single_status main_batch_status by blast
qed

theorem process_image_catches_witness:
  "sample_engine (world start) ''missing.png'' = (Inl (LibraryError ''No such file''), 1)
   \<and> process_image sample_engine ''missing.png'' start =
       (Inr None, \<lparr>world = 1, stdout = [],
                   stderr = [''Error processing missing.png: No such file'']\<rparr>)
   \<and> sample_engine (world start) ''blank.png'' = (Inr ''a photo of '', 1)
   \<and> strip (clean_caption ''a photo of '') = []
   \<and> process_image sample_engine ''blank.png'' start =
       (Inr None, \<lparr>world = 1, stdout = [],
                   stderr = [''Error processing blank.png: Empty caption generated'']\<rparr>)
   \<and> 2 \<le> length [''caption_generator.py'', ''missing.png'', ''blank.png'']
   \<and> fst (main sample_engine [''caption_generator.py'', ''missing.png'', ''blank.png''] start) = 0"
proof -
  have h1: "sample_engine (world start) ''missing.png'' = (Inl (LibraryError ''No such file''), 1)"
    by (simp add: sample_engine_def start_def)
  have h2: "sample_engine (world start) ''blank.png'' = (Inr ''a photo of '', 1)"
    by (simp add: sample_engine_def start_def)
  have h3: "strip (clean_caption ''a photo of '') = []"
    by code_simp
  have h4: "2 \<le> length [''caption_generator.py'', ''missing.png'', ''blank.png'']"
    by simp
  have a: "process_image sample_engine ''missing.png'' start =
       (Inr None, \<lparr>world = 1, stdout = [],
                   stderr = [''Error processing missing.png: No such file'']\<rparr>)"
    using h1 process_image_catches[of sample_engine "''missing.png''" start "[]"]
    by (simp add: start_def)
  have b: "process_image sample_engine ''blank.png'' start =
       (Inr None, \<lparr>world = 1, stdout = [],
                   stderr = [''Error processing blank.png: Empty caption generated'']\<rparr>)"
    using h2 h3 process_image_catches[of sample_engine "''blank.png''" start "[]"]
    by (simp add: start_def)
  have c: "fst (main sample_engine [''caption_generator.py'', ''missing.png'', ''blank.png''] start) = 0"
    using h4 process_image_catches[of sample_engine "''missing.png''" start
        "[''caption_generator.py'', ''missing.png'', ''blank.png'']"]
    by blast
  from h1 h2 h3 h4 a b c show ?thesis by blast
qed

section \<open>The entry point\<close>

text \<open>
  Claim C8. In single-image mode, when \<open>process_image\<close> fails for the path (the body
  of its \<open>try\<close> raises), the program prints nothing to standard output, appends one
  error line to the error stream and exits with status 0.
\<close>

theorem main_single_failure:
  "try_body engine path (world s) = (Inl e, w') \<Longrightarrow>
   main engine [prog, path] s =
     (0, s\<lparr>world := w',
           stderr := stderr s @ [''Error processing '' @ path @ '': '' @ str_exn e]\<rparr>)"
  by (simp add: main_single process_image_def)

theorem main_single_failure_witness:
  "try_body sample_engine ''missing.png'' (world start) = (Inl (LibraryError ''No such file''), 1)
   \<and> main sample_engine [''caption_generator.py'', ''missing.png''] start =
     (0, \<lparr>world = 1, stdout = [], stderr = [''Error processing missing.png: No such file'']\<rparr>)"
proof -
  have h: "try_body sample_engine ''missing.png'' (world start)
      = (Inl (LibraryError ''No such file''), 1)"
    by (simp add: try_body_def sample_engine_def start_def)
  show ?thesis using h main_single_failure[OF h, of "''caption_generator.py''"]
    by (simp add: start_def)
qed

text \<open>
  Claim C9. Invoked without an image path, the program exits with status 1 and prints
  the object \<open>{"error": "list index out of range"}\<close> to the error stream; nothing goes to
  standard output.
\<close>

theorem main_missing_argument:
  \<open>length argv < 2 \<Longrightarrow>
   main engine argv s =
     (1, s\<lparr>stderr := stderr s @ [''{"error": "list index out of range"}'']\<rparr>)\<close>
  by (simp add: main_def main_body_def argv_at_def json_string_def json_escape_def code_def)

theorem main_missing_argument_witness:
  \<open>length [''caption_generator.py''] < 2 \<and>
   main sample_engine [''caption_generator.py''] start =
     (1, \<lparr>world = 0, stdout = [], stderr = [''{"error": "list index out of range"}'']\<rparr>)\<close>
proof -
  have h: "length [''caption_generator.py''] < 2" by simp
  show ?thesis using h main_missing_argument[OF h, of sample_engine start]
    by (simp add: start_def)
qed



section \<open>The cleaner on the two examples\<close>

text \<open>
  Claim C6, as stated: \<open>clean_caption\<close> maps ``a photo of a dog running'' to
  ``Dog running''.  It does not: only the boilerplate phrase is removed, the article
  stays.
\<close>

theorem clean_caption_dog_running_counterexample:
  "clean_caption ''a photo of a dog running'' \<noteq> ''Dog running''"
  by code_simp

text \<open>
  Claim C6, amended: \<open>clean_caption\<close> maps ``a photo of a dog running'' to
  ``A dog running''.
\<close>

theorem clean_caption_dog_running:
  "clean_caption ''a photo of a dog running'' = ''A dog running''"
  by code_simp

text \<open>Claim C7. \<open>clean_caption\<close> maps ``AN IMAGE OF a cat'' to ``A cat''.\<close>

theorem clean_caption_cat:
  "clean_caption ''AN IMAGE OF a cat'' = ''A cat''"
  by code_simp

section \<open>The cleaner is idempotent on ASCII text\<close>

lemma clean_caption_idempotent_ascii:
  "ascii s \<Longrightarrow> ascii (clean_caption s) \<and> clean_caption (clean_caption s) = clean_caption s"
  by (simp add: ascii_clean_caption clean_caption_idem)

section \<open>What a returned caption looks like\<close>

text \<open>
  Claim C2, as stated: a caption returned by \<open>process_image\<close> contains none of the
  four phrases, compared without regard to case.  It can: the pattern asks for a word
  boundary on both sides, so ``a photo of'' inside ``panorama photo of'' stays.
\<close>

theorem process_image_contains_phrase_counterexample:
  "process_image sample_engine ''panorama.png'' start
     = (Inr (Some ''Panorama photo of a lake''), \<lparr>world = 1, stdout = [], stderr = []\<rparr>)
   \<and> contains_phrase ''Panorama photo of a lake'' ''a photo of''"
  by code_simp

text \<open>
  Claim C2, amended: when the pipeline yields an ASCII caption and \<open>process_image\<close>
  returns a result, that result is an ASCII string, not empty, capitalized
  (\<open>capitalize\<close> leaves it unchanged: its first character is not a lower-case letter
  and no later character is an upper-case letter), and contains no whole-word
  occurrence of any of the four phrases, compared without regard to case.
\<close>

theorem process_image_caption_shape:
  assumes "engine (world s) path = (Inr raw, w')" "ascii raw"
    and "process_image engine path s = (Inr (Some c), s')"
  shows "ascii c \<and> c \<noteq> [] \<and> capitalize c = c \<and> \<not> is_lower (hd c)
    \<and> list_all (\<lambda>x. \<not> is_upper x) (tl c)
    \<and> (\<forall>ph\<in>set phrases. \<forall>i. \<not> occurrence c i ph)"
proof -
  from assms(1,3) have c: "c = clean_caption raw"
    by (auto simp: process_image_def try_body_def Let_def split: if_splits)
  from assms(2) have asc: "ascii c" unfolding c by (rule ascii_clean_caption)
  from process_image_Some_strip[OF assms(3)] have ne: "c \<noteq> []"
    by (auto simp: strip_empty_iff)
  have cap: "capitalize c = c"
    unfolding c clean_caption_def by (rule capitalize_idem)
  have "free None c" unfolding c by (rule free_clean_caption)
  then have "\<forall>ph\<in>set phrases. \<forall>i. \<not> occurrence c i ph"
    using free_no_occurrence by blast
  with asc ne cap capitalize_shape[OF cap ne] show ?thesis by blast
qed

theorem process_image_caption_shape_witness:
  "sample_engine (world start) ''panorama.png'' = (Inr ''panorama photo of a lake'', 1)
   \<and> ascii ''panorama photo of a lake''
   \<and> process_image sample_engine ''panorama.png'' start
     = (Inr (Some ''Panorama photo of a lake''), \<lparr>world = 1, stdout = [], stderr = []\<rparr>)
   \<and> capitalize ''Panorama photo of a lake'' = ''Panorama photo of a lake''
   \<and> phrase_at ''Panorama photo of a lake'' 7 ''a photo of''
   \<and> \<not> occurrence ''Panorama photo of a lake'' 7 ''a photo of''"
proof -
  have e: "sample_engine (world start) ''panorama.png'' = (Inr ''panorama photo of a lake'', 1)"
    by (simp add: sample_engine_def start_def)
  have a: "ascii ''panorama photo of a lake''" by code_simp
  have h: "process_image sample_engine ''panorama.png'' start
     = (Inr (Some ''Panorama photo of a lake''), \<lparr>world = 1, stdout = [], stderr = []\<rparr>)"
    by code_simp
  have p: "''a photo of'' \<in> set phrases"
    by (simp add: phrases_def)
  have q: "phrase_at ''Panorama photo of a lake'' 7 ''a photo of''"
    by code_simp
  show ?thesis using e a h p q process_image_caption_shape[OF e a h] by blast
qed

section \<open>The cleaner as removal of occurrences\<close>

text \<open>
  Claim C5, as stated: the output of \<open>clean_caption\<close> is the input without the
  occurrences of the pattern, trimmed, changed only by uppercasing the first character.
  It is not: \<open>capitalize\<close> also lowercases every other character.  And an
  occurrence that is glued to a word character is no match of the pattern and stays.
\<close>

theorem clean_caption_lowercases_counterexample:
  "clean_caption ''a photo of a Dog'' = ''A dog''
   \<and> spec_clean_caption ''a photo of a Dog'' = ''A Dog''
   \<and> clean_caption ''a photo of a Dog'' \<noteq> spec_clean_caption ''a photo of a Dog''
   \<and> clean_caption ''panorama photo of a lake'' = ''Panorama photo of a lake''
   \<and> contains_phrase ''Panorama photo of a lake'' ''a photo of''"
  by code_simp

text \<open>
  Claim C5, amended: for an ASCII input, \<open>re.sub\<close> removes exactly the characters of the whole-word
  occurrences of the four phrases (compared without regard to case); the output of
  \<open>clean_caption\<close> is that text with surrounding whitespace trimmed, its first character
  uppercased and every other character lowercased.  So it equals the text of the claim
  as stated up to letter case.
\<close>

theorem clean_caption_removed:
  "ascii s \<Longrightarrow> re_sub s = removed s
   \<and> clean_caption s =
       (case strip (removed s) of [] \<Rightarrow> [] | c # cs \<Rightarrow> to_upper c # map to_lower cs)
   \<and> map to_lower (clean_caption s) = map to_lower (spec_clean_caption s)"
proof -
  have a: "clean_caption s = capitalize (strip (removed s))"
    by (simp add: clean_caption_def re_sub_removed)
  have b: "capitalize t = (case t of [] \<Rightarrow> [] | c # cs \<Rightarrow> to_upper c # map to_lower cs)" for t
    by (cases t) simp_all
  show ?thesis
    unfolding a spec_clean_caption_def map_lower_capitalize map_lower_upper_first
    using re_sub_removed b by simp
qed

theorem clean_caption_removed_witness:
  "ascii ''a photo of a Dog''
   \<and> removed ''a photo of a Dog'' = '' a Dog''
   \<and> re_sub ''a photo of a Dog'' = '' a Dog''
   \<and> clean_caption ''a photo of a Dog'' = ''A dog''"
proof -
  have r: "removed ''a photo of a Dog'' = '' a Dog''" by code_simp
  have st: "strip '' a Dog'' = ''a Dog''" by code_simp
  have up: "to_upper CHR ''a'' # map to_lower '' Dog'' = ''A dog''" by code_simp
  have a: "ascii ''a photo of a Dog''" by code_simp
  show ?thesis using a clean_caption_removed[of "''a photo of a Dog''"]
    unfolding r st list.case up by simp
qed

end
